theory Spec2Isabelle
  imports Complex_Main "HOL-Library.AList" "HOL-Library.Char_ord" "HOL-Library.List_Lexorder"
begin

section \<open>Text: characters and the string methods the program calls\<close>

text \<open>
  A Python \<open>str\<close> is a sequence of code points. A \<open>char\<close> stands for the code point of
  the same number (0 to 255), so the model covers text in that range; the classes below
  are the classes of \<open>re\<close> and \<open>str\<close> for these code points.
\<close>

definition isspace :: "char \<Rightarrow> bool" where
  \<comment> \<open>\<open>\s\<close> of a \<open>str\<close> pattern, and what \<open>str.strip\<close> removes\<close>
  "isspace c =
     (let n = (of_char c :: nat)
      in (9 \<le> n \<and> n \<le> 13) \<or> (28 \<le> n \<and> n \<le> 32) \<or> n = 133 \<or> n = 160)"

definition isword :: "char \<Rightarrow> bool" where
  \<comment> \<open>\<open>\w\<close> of a \<open>str\<close> pattern: alphanumeric, or the underscore\<close>
  "isword c =
     (let n = (of_char c :: nat)
      in (48 \<le> n \<and> n \<le> 57) \<or> (65 \<le> n \<and> n \<le> 90) \<or> n = 95 \<or> (97 \<le> n \<and> n \<le> 122)
         \<or> n = 170 \<or> n = 178 \<or> n = 179 \<or> n = 181 \<or> n = 185 \<or> n = 186
         \<or> (188 \<le> n \<and> n \<le> 190) \<or> (192 \<le> n \<and> n \<le> 214) \<or> (216 \<le> n \<and> n \<le> 246)
         \<or> (248 \<le> n \<and> n \<le> 255))"

definition lower_char :: "char \<Rightarrow> char" where
  "lower_char c =
     (let n = (of_char c :: nat)
      in if (65 \<le> n \<and> n \<le> 90) \<or> (192 \<le> n \<and> n \<le> 214) \<or> (216 \<le> n \<and> n \<le> 222)
         then char_of (n + 32) else c)"

definition lower :: "string \<Rightarrow> string" where
  \<comment> \<open>\<open>str.lower\<close>\<close>
  "lower s = map lower_char s"

definition strip :: "string \<Rightarrow> string" where
  \<comment> \<open>\<open>str.strip\<close> with no argument\<close>
  "strip s = rev (dropWhile isspace (rev (dropWhile isspace s)))"

definition replace_newline :: "string \<Rightarrow> string" where
  \<comment> \<open>\<open>m.replace("\n", " ")\<close>\<close>
  "replace_newline s = map (\<lambda>c. if c = CHR 0x0A then CHR '' '' else c) s"

fun split_sep :: "string \<Rightarrow> string \<Rightarrow> string \<Rightarrow> string list" where
  \<comment> \<open>\<open>str.split(sep)\<close> for a separator that is not empty, scanning left to right:
      \<open>cur\<close> is the piece read so far\<close>
  "split_sep sep cur [] = [cur]"
| "split_sep sep cur (c # cs) =
     (if sep \<noteq> [] \<and> take (length sep) (c # cs) = sep
      then cur # split_sep sep [] (drop (length sep - 1) cs)
      else split_sep sep (cur @ [c]) cs)"

definition split :: "string \<Rightarrow> string \<Rightarrow> string list" where
  "split s sep = split_sep sep [] s"

section \<open>The three patterns of \<open>find_gender\<close>\<close>

text \<open>
  Each pattern is matched the way \<open>re\<close> does: an attempt at the head of the text either
  fails or gives the text after the match (and the group it captured); \<open>findall\<close> and
  \<open>sub\<close> try every position from left to right and go on after a match. In all three
  patterns a greedy run (\<open>\s*\<close>, \<open>\s+\<close>, \<open>\w+\<close>) is followed by a character outside the
  run's class, so giving characters back never helps and the longest run decides.
\<close>

definition match_author :: "string \<Rightarrow> (string \<times> string) option" where
  \<comment> \<open>\<open>author\s=\s+\{(.*?)\}\<close> with \<open>re.DOTALL\<close>: the group ends at the first \<open>}\<close>\<close>
  "match_author s =
     (if take 6 s = ''author'' then
        (case drop 6 s of
           sp # eq # sp2 # rest \<Rightarrow>
             if isspace sp \<and> eq = CHR ''='' \<and> isspace sp2 then
               (case dropWhile isspace rest of
                  ob # body \<Rightarrow>
                    if ob = CHR ''{'' \<and> CHR ''}'' \<in> set body
                    then Some (takeWhile (\<lambda>c. c \<noteq> CHR ''}'') body,
                               tl (dropWhile (\<lambda>c. c \<noteq> CHR ''}'') body))
                    else None
                | [] \<Rightarrow> None)
             else None
         | _ \<Rightarrow> None)
      else None)"

definition match_bib_id :: "string \<Rightarrow> (string \<times> string) option" where
  \<comment> \<open>\<open>@\w+\{(.*?),\<close>: the group ends at the first comma and holds no newline\<close>
  "match_bib_id s =
     (case s of
        hd0 # w # rest \<Rightarrow>
          if hd0 = CHR ''@'' \<and> isword w then
            (case dropWhile isword rest of
               ob # body \<Rightarrow>
                 if ob = CHR ''{'' then
                   (case dropWhile (\<lambda>c. c \<noteq> CHR '','' \<and> c \<noteq> CHR 0x0A) body of
                      d # after \<Rightarrow>
                        if d = CHR '',''
                        then Some (takeWhile (\<lambda>c. c \<noteq> CHR '','' \<and> c \<noteq> CHR 0x0A) body, after)
                        else None
                    | [] \<Rightarrow> None)
                 else None
             | [] \<Rightarrow> None)
          else None
      | _ \<Rightarrow> None)"

definition match_initial :: "string \<Rightarrow> string option" where
  \<comment> \<open>\<open>\s*\w\.\s*\<close>: the text after the match\<close>
  "match_initial s =
     (case dropWhile isspace s of
        w # d # rest \<Rightarrow>
          if isword w \<and> d = CHR ''.'' then Some (dropWhile isspace rest) else None
      | _ \<Rightarrow> None)"

lemma match_author_shorter: "match_author s = Some (g, r) \<Longrightarrow> length r < length s"
proof -
  assume m: "match_author s = Some (g, r)"
  then obtain sp eq sp2 rest ob body where
    d: "drop 6 s = sp # eq # sp2 # rest" and b: "dropWhile isspace rest = ob # body"
    and r: "r = tl (dropWhile (\<lambda>c. c \<noteq> CHR ''}'') body)"
    by (auto simp: match_author_def split: if_splits list.splits)
  have "length r \<le> length body"
    unfolding r using length_dropWhile_le [of "\<lambda>c. c \<noteq> CHR ''}''" body] by simp
  moreover have "length body < length rest"
    using length_dropWhile_le [of isspace rest] b by simp
  moreover have "length rest < length s"
    using arg_cong [OF d, of length] by simp
  ultimately show ?thesis by simp
qed

lemma match_bib_id_shorter: "match_bib_id s = Some (g, r) \<Longrightarrow> length r < length s"
proof -
  assume m: "match_bib_id s = Some (g, r)"
  then obtain hd0 w rest ob body d where
    s: "s = hd0 # w # rest" and b: "dropWhile isword rest = ob # body"
    and r: "dropWhile (\<lambda>c. c \<noteq> CHR '','' \<and> c \<noteq> CHR 0x0A) body = d # r"
    by (auto simp: match_bib_id_def split: if_splits list.splits)
  have "length r < length body"
    using length_dropWhile_le [of "\<lambda>c. c \<noteq> CHR '','' \<and> c \<noteq> CHR 0x0A" body] r by simp
  moreover have "length body < length rest"
    using length_dropWhile_le [of isword rest] b by simp
  ultimately show ?thesis using s by simp
qed

lemma match_initial_shorter: "match_initial s = Some r \<Longrightarrow> length r < length s"
proof -
  assume m: "match_initial s = Some r"
  then obtain w d rest where
    b: "dropWhile isspace s = w # d # rest" and r: "r = dropWhile isspace rest"
    by (auto simp: match_initial_def split: if_splits list.splits)
  have "length r \<le> length rest"
    unfolding r by (rule length_dropWhile_le)
  moreover have "length rest < length s"
    using length_dropWhile_le [of isspace s] b by simp
  ultimately show ?thesis by simp
qed

function findall_author :: "string \<Rightarrow> string list" where
  \<comment> \<open>\<open>re.findall(r"author\s=\s+\{(.*?)\}", bibstr, re.DOTALL)\<close>\<close>
  "findall_author [] = []"
| "findall_author (c # cs) =
     (case match_author (c # cs) of
        Some (g, r) \<Rightarrow> g # findall_author r
      | None \<Rightarrow> findall_author cs)"
  by pat_completeness auto
termination
  by (relation "measure length") (auto dest: match_author_shorter)

function findall_bib_id :: "string \<Rightarrow> string list" where
  \<comment> \<open>\<open>re.findall(r"@\w+\{(.*?),", bibstr)\<close>\<close>
  "findall_bib_id [] = []"
| "findall_bib_id (c # cs) =
     (case match_bib_id (c # cs) of
        Some (g, r) \<Rightarrow> g # findall_bib_id r
      | None \<Rightarrow> findall_bib_id cs)"
  by pat_completeness auto
termination
  by (relation "measure length") (auto dest: match_bib_id_shorter)

function strip_initial_sub :: "string \<Rightarrow> string" where
  \<comment> \<open>\<open>strip_initial.sub("", s)\<close> with \<open>strip_initial = re.compile(r"\s*\w\.\s*")\<close>\<close>
  "strip_initial_sub [] = []"
| "strip_initial_sub (c # cs) =
     (case match_initial (c # cs) of
        Some r \<Rightarrow> strip_initial_sub r
      | None \<Rightarrow> c # strip_initial_sub cs)"
  by pat_completeness auto
termination
  by (relation "measure length") (auto dest: match_initial_shorter)

section \<open>Data\<close>

text \<open>
  A gender label is \<open>None\<close> or a string; a dictionary is an association list in
  insertion order (\<open>d[k] = v\<close> is \<open>AList.update\<close>: a key already there keeps its
  place), a Python set is a set. The cache file \<open>names.cache\<close> is absent or holds the
  dictionary that \<open>json.loads\<close> reads from it; \<open>print\<close> appends to the output: the
  line of \<open>query_names\<close> without a key with its number of names, the line for each
  name queried, and the report that \<open>main\<close> prints.
\<close>

type_synonym label = "string option"
type_synonym cache = "(string \<times> string) list"
type_synonym resolved = "(string \<times> ((string \<times> label) \<times> (string \<times> label))) list"
type_synonym report = "(string \<times> int) list"

datatype message = NoKey nat | Querying string | Report report

record world =
  names_cache :: "cache option"
  stdout :: "message list"

record response =
  gender :: "string option"
  accuracy :: "int option"

datatype lookup = Raises | NotOk | Ok response

datatype error = KeyError string | RequestError | AccuracyError

text \<open>
  A ratio is the float that the division returns. \<open>Rounded q\<close> stands for the float
  nearest to the number \<open>q\<close>: the model keeps the exact quotient that the float rounds.
\<close>

datatype ratio = NaN | PosInf | NegInf | Rounded real

definition load_cache :: "world \<Rightarrow> cache" where
  \<comment> \<open>\<open>json.loads(....read_text()) if ....exists() else {}\<close>\<close>
  "load_cache w = (case names_cache w of Some c \<Rightarrow> c | None \<Rightarrow> [])"

section \<open>\<open>find_gender\<close>\<close>

definition normalize_name :: "string \<Rightarrow> string" where
  \<comment> \<open>\<open>strip_initial.sub("", a.strip().split(",")[-1].strip().lower())\<close>\<close>
  "normalize_name a = strip_initial_sub (lower (strip (last (split (strip a) '',''))))"

definition author_lists :: "string \<Rightarrow> string list" where
  "author_lists bibstr = map replace_newline (findall_author bibstr)"

definition bib_id :: "string \<Rightarrow> string list" where
  "bib_id bibstr = findall_bib_id bibstr"

definition add_missed :: "string \<times> label \<Rightarrow> string set \<Rightarrow> string set" where
  \<comment> \<open>\<open>if n is None: missed.add(f)\<close>\<close>
  "add_missed fn missed = (if snd fn = None then insert (fst fn) missed else missed)"

fun find_gender_loop ::
  "cache \<Rightarrow> (string \<times> string) list \<Rightarrow> resolved \<times> string set \<Rightarrow> resolved \<times> string set" where
  "find_gender_loop cached [] (data, missed) = (data, missed)"
| "find_gender_loop cached ((bid, authors) # rest) (data, missed) =
     (let authlst = split authors '' and'';
          first = normalize_name (hd authlst);
          lastn = normalize_name (last authlst);
          entry = ((first, map_of cached first), (lastn, map_of cached lastn))
      in find_gender_loop cached rest
           (AList.update bid entry data, add_missed (snd entry) (add_missed (fst entry) missed)))"

definition find_gender :: "string \<Rightarrow> cache option \<Rightarrow> world \<Rightarrow> resolved \<times> string set" where
  "find_gender bibstr cached w =
     (let cached1 = (case cached of None \<Rightarrow> load_cache w | Some c \<Rightarrow> c)
      in find_gender_loop cached1 (zip (bib_id bibstr) (author_lists bibstr)) ([], {}))"

section \<open>\<open>query_names\<close>\<close>

text \<open>
  What the service does for a name is a value of \<open>lookup\<close>: \<open>Raises\<close> when
  \<open>requests.get\<close> or \<open>q.json()\<close> raises, \<open>NotOk\<close> for a response that is not \<open>ok\<close>,
  \<open>Ok r\<close> for one that is. Of the response the code reads two fields: \<open>accuracy r\<close> is
  \<open>None\<close> when \<open>int(responses[n]["accuracy"])\<close> raises (no such key, or a value that
  \<open>int\<close> rejects) and the integer otherwise; \<open>gender r\<close> is \<open>None\<close> when the response
  has no key \<open>"gender"\<close>, which the code reads only when the accuracy is at least 60.
  Nothing in \<open>query_names\<close> catches an exception: the loop stops at the first one and
  \<open>query_names\<close> is left before the cache file is written. \<open>query_loop\<close> gives the
  exception that ended the loop, if any, with the dictionary \<open>cached\<close> and the output
  as they are at that moment. The dictionary \<open>responses\<close> is written and never read,
  so it is left out.
\<close>

fun query_loop ::
  "(string \<Rightarrow> lookup) \<Rightarrow> string list \<Rightarrow> cache \<times> message list
     \<Rightarrow> error option \<times> cache \<times> message list" where
  "query_loop api [] (cached, out) = (None, cached, out)"
| "query_loop api (n # ns) (cached, out) =
     (case api n of
        Raises \<Rightarrow> (Some RequestError, cached, out @ [Querying n])
      | NotOk \<Rightarrow> query_loop api ns (cached, out @ [Querying n])
      | Ok r \<Rightarrow>
          (case accuracy r of
             None \<Rightarrow> (Some AccuracyError, cached, out @ [Querying n])
           | Some a \<Rightarrow>
               if a \<ge> 60 then
                 (case gender r of
                    None \<Rightarrow> (Some (KeyError ''gender''), cached, out @ [Querying n])
                  | Some g \<Rightarrow>
                      query_loop api ns
                        (AList.update n (if g = ''female'' then ''F'' else ''M'') cached,
                         out @ [Querying n]))
               else query_loop api ns (cached, out @ [Querying n])))"

definition query_names ::
  "string option \<Rightarrow> (string \<Rightarrow> lookup) \<Rightarrow> string set \<Rightarrow> world \<Rightarrow> (error + cache) \<times> world" where
  "query_names api_key api nameset w =
     (let cached = load_cache w;
          misses = sorted_list_of_set (nameset - set (map fst cached))
      in if misses = [] then (Inr cached, w)
         else case api_key of
           None \<Rightarrow> (Inr cached, w\<lparr>stdout := stdout w @ [NoKey (length misses)]\<rparr>)
         | Some key \<Rightarrow>
             (case query_loop api misses (cached, stdout w) of
                (Some e, cached', out) \<Rightarrow> (Inl e, w\<lparr>stdout := out\<rparr>)
              | (None, cached', out) \<Rightarrow>
                  (Inr cached', w\<lparr>names_cache := Some cached', stdout := out\<rparr>)))"

section \<open>\<open>report_gender\<close> and \<open>compute_gender_stats\<close>\<close>

definition label_str :: "label \<Rightarrow> string" where
  \<comment> \<open>how an f-string formats a label\<close>
  "label_str l = (case l of None \<Rightarrow> ''None'' | Some s \<Rightarrow> s)"

definition categories :: "string list" where
  \<comment> \<open>\<open>"".join(c) for c in product(("M", "F", "None"), repeat=2)\<close>\<close>
  "categories = concat (map (\<lambda>a. map (\<lambda>b. a @ b) [''M'', ''F'', ''None'']) [''M'', ''F'', ''None''])"

fun report_loop ::
  "((string \<times> label) \<times> (string \<times> label)) list \<Rightarrow> report \<Rightarrow> error + report" where
  "report_loop [] retval = Inr retval"
| "report_loop ((first, lastn) # rest) retval =
     (let k = label_str (snd first) @ label_str (snd lastn)
      in case map_of retval k of
           None \<Rightarrow> Inl (KeyError k)
         | Some n \<Rightarrow> report_loop rest (AList.update k (n + 1) retval))"

definition report_gender :: "resolved \<Rightarrow> error + report" where
  "report_gender data = report_loop (map snd data) (map (\<lambda>c. (c, 0)) categories)"

definition truediv :: "int \<Rightarrow> int \<Rightarrow> ratio" where
  \<comment> \<open>\<open>/\<close> of a pandas row and a number, for counts that a float holds exactly: on a
      zero divisor it gives NaN or an infinity and raises nothing, otherwise the float
      nearest to the quotient\<close>
  "truediv n tot =
     (if tot = 0 then (if n = 0 then NaN else if 0 < n then PosInf else NegInf)
      else Rounded (real_of_int n / real_of_int tot))"

definition compute_gender_stats :: "report \<Rightarrow> (string \<times> ratio) list" where
  "compute_gender_stats df =
     (let tot = sum_list (map snd df)
      in map (\<lambda>(c, n). (c, truediv n tot)) df)"

section \<open>\<open>main\<close>\<close>

record outcome =
  resolved_out :: resolved
  missed_out :: "string set"
  gender_report :: report
  stats_report :: "(string \<times> ratio) list"

definition main ::
  "string \<Rightarrow> string option \<Rightarrow> (string \<Rightarrow> lookup) \<Rightarrow> world \<Rightarrow> error + (outcome \<times> world)" where
  "main bibstr api_key api w =
     (case find_gender bibstr None w of
        (resolved, missed) \<Rightarrow>
          (case (if missed \<noteq> {}
                 then (case query_names api_key api missed w of
                         (Inl e, w') \<Rightarrow> Inl e
                       | (Inr cached, w') \<Rightarrow> Inr (find_gender bibstr (Some cached) w', w'))
                 else Inr ((resolved, missed), w)) of
             Inl e \<Rightarrow> Inl e
           | Inr ((resolved2, missed2), w2) \<Rightarrow>
               (case report_gender resolved2 of
                  Inl e \<Rightarrow> Inl e
                | Inr gr \<Rightarrow>
                    Inr (\<lparr>resolved_out = resolved2, missed_out = missed2, gender_report = gr,
                          stats_report = compute_gender_stats gr\<rparr>,
                         w2\<lparr>stdout := stdout w2 @ [Report gr]\<rparr>))))"

section \<open>Inputs of the examples\<close>

text \<open>
  Two records with the author fields \<open>{Doe, J. and Roe, A.}\<close> and \<open>{Smith, K.}\<close>; the
  same records with the given name written first; two records under one citation key;
  and a text with two record headers and one author field.
\<close>

definition bib_surname_first :: string where
  "bib_surname_first =
     ''@article{doe2020,'' @ [CHR 0x0A] @ ''  author = {Doe, J. and Roe, A.},'' @ [CHR 0x0A] @
     ''}'' @ [CHR 0x0A] @
     ''@article{smith2021,'' @ [CHR 0x0A] @ ''  author = {Smith, K.},'' @ [CHR 0x0A] @
     ''}'' @ [CHR 0x0A]"

definition bib_given_first :: string where
  "bib_given_first =
     ''@article{doe2020,'' @ [CHR 0x0A] @ ''  author = {J. Doe and A. Roe},'' @ [CHR 0x0A] @
     ''}'' @ [CHR 0x0A] @
     ''@article{smith2021,'' @ [CHR 0x0A] @ ''  author = {K. Smith},'' @ [CHR 0x0A] @
     ''}'' @ [CHR 0x0A]"

definition bib_same_key :: string where
  "bib_same_key =
     ''@article{lee2020,'' @ [CHR 0x0A] @ ''  author = {Ann Lee},'' @ [CHR 0x0A] @
     ''}'' @ [CHR 0x0A] @
     ''@article{lee2020,'' @ [CHR 0x0A] @ ''  author = {Bob Ray},'' @ [CHR 0x0A] @
     ''}'' @ [CHR 0x0A]"

definition bib_no_author :: string where
  "bib_no_author =
     ''@article{lee2020,'' @ [CHR 0x0A] @ ''  author = {Ann Lee},'' @ [CHR 0x0A] @
     ''}'' @ [CHR 0x0A] @
     ''@misc{ray2021,'' @ [CHR 0x0A] @ ''  title = {Notes},'' @ [CHR 0x0A] @
     ''}'' @ [CHR 0x0A]"

definition world_doe_roe :: world where
  \<comment> \<open>the cache file holds \<open>{"doe": "M", "roe": "F"}\<close>, nothing printed yet\<close>
  "world_doe_roe = \<lparr>names_cache = Some [(''doe'', ''M''), (''roe'', ''F'')], stdout = []\<rparr>"

definition api_smith :: "string \<Rightarrow> lookup" where
  \<comment> \<open>a service that answers for \<open>smith\<close> only, with accuracy 60\<close>
  "api_smith n =
     (if n = ''smith'' then Ok \<lparr>gender = Some ''female'', accuracy = Some 60\<rparr> else NotOk)"

definition api_second_raises :: "string \<Rightarrow> lookup" where
  \<comment> \<open>a service that answers for \<open>ann\<close> with accuracy 90; every other request raises\<close>
  "api_second_raises n =
     (if n = ''ann'' then Ok \<lparr>gender = Some ''female'', accuracy = Some 90\<rparr> else Raises)"

definition world_no_cache :: world where
  \<comment> \<open>no cache file, nothing printed yet\<close>
  "world_no_cache = \<lparr>names_cache = None, stdout = []\<rparr>"

section \<open>Notions for the proofs\<close>

definition trimmed :: "string \<Rightarrow> bool" where
  \<comment> \<open>no whitespace at either end\<close>
  "trimmed x = (x = [] \<or> (\<not> isspace (hd x) \<and> \<not> isspace (last x)))"

definition answers :: "lookup \<Rightarrow> bool" where
  \<comment> \<open>the lookup and the reading of its response raise nothing\<close>
  "answers l =
     (l = NotOk \<or> (\<exists>r a. l = Ok r \<and> accuracy r = Some a \<and> (a < 60 \<or> (\<exists>g. gender r = Some g))))"

definition stored :: "lookup \<Rightarrow> string option" where
  \<comment> \<open>the label that the loop stores for a lookup that raises nothing\<close>
  "stored l =
     (case l of
        Ok r \<Rightarrow>
          (case accuracy r of
             Some a \<Rightarrow>
               if 60 \<le> a
               then (case gender r of Some g \<Rightarrow> Some (if g = ''female'' then ''F'' else ''M'') | None \<Rightarrow> None)
               else None
           | None \<Rightarrow> None)
      | _ \<Rightarrow> None)"

section \<open>The report\<close>

lemma categories_eq:
  "categories = [''MM'', ''MF'', ''MNone'', ''FM'', ''FF'', ''FNone'', ''NoneM'', ''NoneF'', ''NoneNone'']"
  by (simp add: categories_def)

lemma update_present_keys: "map_of al k = Some v \<Longrightarrow> map fst (AList.update k v' al) = map fst al"
proof -
  assume "map_of al k = Some v"
  then have "(k, v) \<in> set al" by (rule map_of_SomeD)
  then have "k \<in> fst ` set al" by force
  then show ?thesis by (simp add: update_keys)
qed

lemma update_present_sum:
  "map_of al k = Some (n::int) \<Longrightarrow>
   sum_list (map snd (AList.update k (n + 1) al)) = sum_list (map snd al) + 1"
  by (induction al) (auto split: if_splits)

lemma report_loop_step:
  assumes "report_loop ((first, lastn) # vs) r = Inr r'"
  obtains n where "map_of r (label_str (snd first) @ label_str (snd lastn)) = Some n"
    and "report_loop vs (AList.update (label_str (snd first) @ label_str (snd lastn)) (n + 1) r) = Inr r'"
  using assms by (auto simp: Let_def split: option.splits)

lemma report_loop_keys: "report_loop vs r = Inr r' \<Longrightarrow> map fst r' = map fst r"
proof (induction vs arbitrary: r)
  case Nil
  then show ?case by simp
next
  case (Cons v vs)
  obtain first lastn where v: "v = (first, lastn)" by (cases v)
  from Cons.prems obtain n where
    n: "map_of r (label_str (snd first) @ label_str (snd lastn)) = Some n" and
    rest: "report_loop vs (AList.update (label_str (snd first) @ label_str (snd lastn)) (n + 1) r) = Inr r'"
    unfolding v by (rule report_loop_step)
  from Cons.IH [OF rest] update_present_keys [OF n] show ?case by simp
qed

lemma report_loop_sum:
  "report_loop vs r = Inr r' \<Longrightarrow> sum_list (map snd r') = sum_list (map snd r) + int (length vs)"
proof (induction vs arbitrary: r)
  case Nil
  then show ?case by simp
next
  case (Cons v vs)
  obtain first lastn where v: "v = (first, lastn)" by (cases v)
  from Cons.prems obtain n where
    n: "map_of r (label_str (snd first) @ label_str (snd lastn)) = Some n" and
    rest: "report_loop vs (AList.update (label_str (snd first) @ label_str (snd lastn)) (n + 1) r) = Inr r'"
    unfolding v by (rule report_loop_step)
  from Cons.IH [OF rest] update_present_sum [OF n] show ?case by simp
qed

lemma label_category:
  "a \<in> {Some ''M'', Some ''F'', None} \<Longrightarrow> b \<in> {Some ''M'', Some ''F'', None}
   \<Longrightarrow> label_str a @ label_str b \<in> set categories"
  by (auto simp: label_str_def categories_eq)

lemma report_loop_returns:
  "\<forall>v \<in> set vs. snd (fst v) \<in> {Some ''M'', Some ''F'', None} \<and> snd (snd v) \<in> {Some ''M'', Some ''F'', None}
   \<Longrightarrow> map fst r = categories \<Longrightarrow> \<exists>r'. report_loop vs r = Inr r'"
proof (induction vs arbitrary: r)
  case Nil
  then show ?case by simp
next
  case (Cons v vs)
  obtain first lastn where v: "v = (first, lastn)" by (cases v)
  let ?k = "label_str (snd first) @ label_str (snd lastn)"
  from Cons.prems(1) have "?k \<in> set categories"
    unfolding v by (intro label_category) simp_all
  with Cons.prems(2) have "?k \<in> fst ` set r" by (metis list.set_map)
  then obtain n where n: "map_of r ?k = Some n"
    by (metis domD dom_map_of_conv_image_fst)
  have "map fst (AList.update ?k (n + 1) r) = categories"
    using update_present_keys [OF n] Cons.prems(2) by simp
  moreover from Cons.prems(1)
  have "\<forall>v \<in> set vs. snd (fst v) \<in> {Some ''M'', Some ''F'', None} \<and> snd (snd v) \<in> {Some ''M'', Some ''F'', None}"
    by simp
  ultimately obtain r' where "report_loop vs (AList.update ?k (n + 1) r) = Inr r'"
    using Cons.IH by blast
  then show ?case by (simp add: v n Let_def)
qed

lemma report_gender_keys: "report_gender data = Inr r \<Longrightarrow> map fst r = categories"
  using report_loop_keys [of "map snd data" "map (\<lambda>c. (c, 0)) categories" r]
  by (simp add: report_gender_def comp_def)

lemma stats_keys: "map fst (compute_gender_stats df) = map fst df"
  by (simp add: compute_gender_stats_def comp_def case_prod_unfold)

text \<open>
  C4. When every gender label of the resolved records is \<open>"M"\<close>, \<open>"F"\<close> or
  \<open>None\<close>, \<open>report_gender\<close> returns a report; its keys are the nine categories and its
  counts add up to the number of resolved records.
\<close>

theorem report_gender_total:
  assumes "\<forall>rec \<in> set data. snd (fst (snd rec)) \<in> {Some ''M'', Some ''F'', None}
             \<and> snd (snd (snd rec)) \<in> {Some ''M'', Some ''F'', None}"
  shows "\<exists>r. report_gender data = Inr r \<and> map fst r = categories \<and> length r = 9
           \<and> sum_list (map snd r) = int (length data)"
proof -
  let ?init = "map (\<lambda>c. (c, 0::int)) categories"
  have keys: "map fst ?init = categories" by (simp add: comp_def)
  from assms
  have "\<forall>v \<in> set (map snd data). snd (fst v) \<in> {Some ''M'', Some ''F'', None}
          \<and> snd (snd v) \<in> {Some ''M'', Some ''F'', None}"
    by simp
  from report_loop_returns [OF this keys] obtain r where r: "report_loop (map snd data) ?init = Inr r"
    by blast
  have k: "map fst r = categories" using report_loop_keys [OF r] keys by simp
  then have "length (map fst r) = 9" by (simp add: categories_eq)
  then have l: "length r = 9" by simp
  have "sum_list (map snd ?init) = 0" by (simp add: categories_eq)
  then have "sum_list (map snd r) = int (length data)" using report_loop_sum [OF r] by simp
  with r k l show ?thesis by (simp add: report_gender_def)
qed

theorem report_gender_total_witness:
  "\<exists>r. report_gender [(''k1'', (''ann'', Some ''F''), (''bob'', Some ''M'')),
                        (''k2'', (''eve'', None), (''eve'', None))] = Inr r
       \<and> map fst r = categories \<and> length r = 9 \<and> sum_list (map snd r) = 2"
  using report_gender_total
    [of "[(''k1'', (''ann'', Some ''F''), (''bob'', Some ''M'')), (''k2'', (''eve'', None), (''eve'', None))]"]
  by simp

text \<open>
  C8. A report that \<open>report_gender\<close> returns lists the nine categories in the order MM,
  MF, MNone, FM, FF, FNone, NoneM, NoneF, NoneNone, and so do the rows that
  \<open>compute_gender_stats\<close> derives from it.
\<close>

theorem report_gender_order:
  assumes "report_gender data = Inr r"
  shows "map fst r = [''MM'', ''MF'', ''MNone'', ''FM'', ''FF'', ''FNone'', ''NoneM'', ''NoneF'', ''NoneNone'']
         \<and> map fst (compute_gender_stats r) =
             [''MM'', ''MF'', ''MNone'', ''FM'', ''FF'', ''FNone'', ''NoneM'', ''NoneF'', ''NoneNone'']"
  using report_gender_keys [OF assms] by (simp add: stats_keys categories_eq)

theorem report_gender_order_witness:
  "report_gender [(''k1'', (''ann'', Some ''F''), (''bob'', Some ''M''))] =
     Inr [(''MM'', 0), (''MF'', 0), (''MNone'', 0), (''FM'', 1), (''FF'', 0), (''FNone'', 0),
          (''NoneM'', 0), (''NoneF'', 0), (''NoneNone'', 0)]
   \<and> map fst (compute_gender_stats
        [(''MM'', 0), (''MF'', 0), (''MNone'', 0), (''FM'', 1), (''FF'', 0), (''FNone'', 0),
         (''NoneM'', 0), (''NoneF'', 0), (''NoneNone'', 0)]) =
       [''MM'', ''MF'', ''MNone'', ''FM'', ''FF'', ''FNone'', ''NoneM'', ''NoneF'', ''NoneNone'']"
proof -
  have r: "report_gender [(''k1'', (''ann'', Some ''F''), (''bob'', Some ''M''))] =
     Inr [(''MM'', 0), (''MF'', 0), (''MNone'', 0), (''FM'', 1), (''FF'', 0), (''FNone'', 0),
          (''NoneM'', 0), (''NoneF'', 0), (''NoneNone'', 0)]"
    by (simp add: report_gender_def categories_eq label_str_def)
  from r report_gender_order [OF r] show ?thesis by simp
qed

section \<open>The lookups and the cache\<close>

lemma query_loop_returns:
  "\<forall>m \<in> set ns. answers (api m) \<Longrightarrow>
   fst (query_loop api ns (c, out)) = None
   \<and> map_of (fst (snd (query_loop api ns (c, out)))) k =
       (if k \<in> set ns then (case stored (api k) of Some v \<Rightarrow> Some v | None \<Rightarrow> map_of c k)
        else map_of c k)"
proof (induction ns arbitrary: c out)
  case Nil
  then show ?case by simp
next
  case (Cons m ns)
  from Cons.prems have m: "answers (api m)" and rest: "\<forall>m \<in> set ns. answers (api m)"
    by simp_all
  note ih = Cons.IH [OF rest]
  from m consider "api m = NotOk"
    | r a where "api m = Ok r" "accuracy r = Some a" "a < 60"
    | r a g where "api m = Ok r" "accuracy r = Some a" "60 \<le> a" "gender r = Some g"
    unfolding answers_def by (metis not_le)
  then show ?case
  proof cases
    case 1
    then show ?thesis using ih [of c] by (simp add: stored_def)
  next
    case 2
    then show ?thesis using ih [of c] by (simp add: stored_def)
  next
    case 3
    then show ?thesis
      using ih [of "AList.update m (if g = ''female'' then ''F'' else ''M'') c"]
      by (simp add: stored_def update_conv' split: option.splits)
  qed
qed

lemma query_loop_raises:
  "\<exists>m \<in> set ns. \<not> answers (api m) \<Longrightarrow> fst (query_loop api ns (c, out)) \<noteq> None"
proof (induction ns arbitrary: c out)
  case Nil
  then show ?case by simp
next
  case (Cons m ns)
  show ?case
  proof (cases "answers (api m)")
    case False
    then show ?thesis
      by (auto simp: answers_def split: lookup.splits option.splits)
  next
    case True
    with Cons.prems have "\<exists>m \<in> set ns. \<not> answers (api m)" by auto
    from Cons.IH [OF this] show ?thesis
      by (simp split: lookup.splits option.splits)
  qed
qed

lemma query_loop_keeps:
  assumes "api n = Ok r" and "accuracy r = Some a" and "gender r = Some g"
    and "60 \<le> a \<Longrightarrow> map_of c n = Some (if g = ''female'' then ''F'' else ''M'')"
  shows "map_of (fst (snd (query_loop api ns (c, out)))) n = map_of c n"
  using assms(4)
proof (induction ns arbitrary: c out)
  case Nil
  then show ?case by simp
next
  case (Cons m ns)
  show ?case
  proof (cases "api m")
    case Raises
    then show ?thesis by simp
  next
    case NotOk
    then show ?thesis using Cons.IH [OF Cons.prems] by simp
  next
    case (Ok r')
    show ?thesis
    proof (cases "accuracy r'")
      case None
      with Ok show ?thesis by simp
    next
      case (Some a')
      show ?thesis
      proof (cases "60 \<le> a'")
        case False
        with Ok Some show ?thesis using Cons.IH [OF Cons.prems] by simp
      next
        case True
        show ?thesis
        proof (cases "gender r'")
          case None
          with Ok Some True show ?thesis by simp
        next
          case g': (Some g')
          let ?c' = "AList.update m (if g' = ''female'' then ''F'' else ''M'') c"
          have same: "map_of ?c' n = map_of c n"
          proof (cases "m = n")
            case False
            then show ?thesis by (simp add: update_conv')
          next
            case eq: True
            with Ok assms(1) have "r' = r" by simp
            with Some g' assms(2,3) True have "a' = a" "g' = g" "60 \<le> a" by simp_all
            with Cons.prems eq show ?thesis by (simp add: update_conv')
          qed
          then have "60 \<le> a \<Longrightarrow> map_of ?c' n = Some (if g = ''female'' then ''F'' else ''M'')"
            using Cons.prems by simp
          from Cons.IH [OF this] same Ok Some True g' show ?thesis by simp
        qed
      qed
    qed
  qed
qed

lemma query_loop_entry:
  assumes "api n = Ok r" and "accuracy r = Some a" and "gender r = Some g"
    and "\<forall>m \<in> set pre. answers (api m)"
  shows "map_of (fst (snd (query_loop api (pre @ n # post) (c, out)))) n =
           (if 60 \<le> a then Some (if g = ''female'' then ''F'' else ''M'') else map_of c n)"
  using assms(4)
proof (induction pre arbitrary: c out)
  case Nil
  show ?case
  proof (cases "60 \<le> a")
    case True
    let ?c' = "AList.update n (if g = ''female'' then ''F'' else ''M'') c"
    have "map_of ?c' n = Some (if g = ''female'' then ''F'' else ''M'')"
      by (simp add: update_conv')
    then have "map_of (fst (snd (query_loop api post (?c', out @ [Querying n])))) n = map_of ?c' n"
      by (intro query_loop_keeps [where api = api and n = n and r = r and a = a and g = g] assms(1-3))
    with assms(1-3) True show ?thesis by (simp add: update_conv')
  next
    case False
    then have "map_of (fst (snd (query_loop api post (c, out @ [Querying n])))) n = map_of c n"
      by (intro query_loop_keeps [where api = api and n = n and r = r and a = a and g = g] assms(1-3))
        simp
    with assms(1-3) False show ?thesis by simp
  qed
next
  case (Cons m pre)
  from Cons.prems have m: "answers (api m)" and rest: "\<forall>m \<in> set pre. answers (api m)"
    by simp_all
  note ih = Cons.IH [OF rest]
  from m consider "api m = NotOk"
    | r' a' where "api m = Ok r'" "accuracy r' = Some a'" "a' < 60"
    | r' a' g' where "api m = Ok r'" "accuracy r' = Some a'" "60 \<le> a'" "gender r' = Some g'"
    unfolding answers_def by (metis not_le)
  then show ?case
  proof cases
    case 1
    then show ?thesis using ih [of c] by simp
  next
    case 2
    then show ?thesis using ih [of c] by simp
  next
    case 3
    let ?c' = "AList.update m (if g' = ''female'' then ''F'' else ''M'') c"
    have "\<not> 60 \<le> a \<Longrightarrow> map_of ?c' n = map_of c n"
    proof -
      assume low: "\<not> 60 \<le> a"
      have "m \<noteq> n"
      proof
        assume "m = n"
        with 3 assms(1,2) have "a' = a" by simp
        with 3(3) low show False by simp
      qed
      then show ?thesis by (simp add: update_conv')
    qed
    with 3 ih [of ?c'] show ?thesis by simp
  qed
qed

lemma query_names_with_key:
  assumes "sorted_list_of_set (nameset - set (map fst (load_cache w))) \<noteq> []"
  shows "query_names (Some key) api nameset w =
     (case query_loop api (sorted_list_of_set (nameset - set (map fst (load_cache w))))
             (load_cache w, stdout w) of
        (Some e, cached', out) \<Rightarrow> (Inl e, w\<lparr>stdout := out\<rparr>)
      | (None, cached', out) \<Rightarrow> (Inr cached', w\<lparr>names_cache := Some cached', stdout := out\<rparr>))"
  using assms by (simp add: query_names_def Let_def)

lemma query_names_returns:
  assumes "sorted_list_of_set (nameset - set (map fst (load_cache w))) \<noteq> []"
    and "query_names (Some key) api nameset w = (Inr cached', w')"
  shows "fst (query_loop api (sorted_list_of_set (nameset - set (map fst (load_cache w))))
                (load_cache w, stdout w)) = None"
    and "cached' = fst (snd (query_loop api (sorted_list_of_set (nameset - set (map fst (load_cache w))))
                (load_cache w, stdout w)))"
    and "names_cache w' = Some cached'"
  using assms(2) unfolding query_names_with_key [OF assms(1)]
  by (auto split: prod.splits option.splits)

lemma query_names_raises:
  assumes "sorted_list_of_set (nameset - set (map fst (load_cache w))) \<noteq> []"
    and "query_names (Some key) api nameset w = (Inl e, w')"
  shows "names_cache w' = names_cache w"
  using assms(2) unfolding query_names_with_key [OF assms(1)]
  by (auto split: prod.splits option.splits)

lemma query_names_result:
  assumes "sorted_list_of_set (nameset - set (map fst (load_cache w))) \<noteq> []"
  shows "(fst (query_loop api (sorted_list_of_set (nameset - set (map fst (load_cache w))))
                (load_cache w, stdout w)) = None \<longrightarrow>
            (\<exists>cached' w'. query_names (Some key) api nameset w = (Inr cached', w')))
         \<and> (fst (query_loop api (sorted_list_of_set (nameset - set (map fst (load_cache w))))
                (load_cache w, stdout w)) \<noteq> None \<longrightarrow>
            (\<exists>e w'. query_names (Some key) api nameset w = (Inl e, w')))"
  unfolding query_names_with_key [OF assms]
  by (auto split: prod.splits option.splits)

text \<open>
  C2. Take a key configured, and a name of the name set that the loaded cache lacks and
  whose lookup gives a response that is \<open>ok\<close>, with an accuracy \<open>a\<close> and a gender \<open>g\<close>.
  When \<open>query_names\<close> returns, the cache it returns has an entry for the name exactly
  when \<open>a\<close> is at least 60, and the entry is \<open>"F"\<close> when \<open>g\<close> is \<open>"female"\<close> and
  \<open>"M"\<close> otherwise; below 60 the name has no entry. It returns when no lookup of a
  missing name raises. In the loop itself, once the names before this one have been
  looked up without an exception, the dictionary holds that entry for the name (or,
  below 60, what it held before) when the loop ends, whatever the later lookups do.
\<close>

theorem query_names_threshold:
  assumes "finite nameset" and "n \<in> nameset" and "n \<notin> set (map fst (load_cache w))"
    and "api n = Ok r" and "accuracy r = Some a" and "gender r = Some g"
  shows "(\<forall>cached' w'. query_names (Some key) api nameset w = (Inr cached', w') \<longrightarrow>
            map_of cached' n =
              (if 60 \<le> a then Some (if g = ''female'' then ''F'' else ''M'') else None))
       \<and> ((\<forall>m \<in> nameset - set (map fst (load_cache w)).
              api m = NotOk
              \<or> (\<exists>r a. api m = Ok r \<and> accuracy r = Some a \<and> (a < 60 \<or> (\<exists>g. gender r = Some g))))
            \<longrightarrow> (\<exists>cached' w'. query_names (Some key) api nameset w = (Inr cached', w')))
       \<and> (\<forall>pre post c out.
             (\<forall>m \<in> set pre.
                api m = NotOk
                \<or> (\<exists>r a. api m = Ok r \<and> accuracy r = Some a \<and> (a < 60 \<or> (\<exists>g. gender r = Some g))))
             \<longrightarrow> map_of (fst (snd (query_loop api (pre @ n # post) (c, out)))) n =
                   (if 60 \<le> a then Some (if g = ''female'' then ''F'' else ''M'') else map_of c n))"
proof (intro conjI allI impI)
  let ?c = "load_cache w"
  let ?misses = "sorted_list_of_set (nameset - set (map fst ?c))"
  from assms(1-3) have mem: "n \<in> set ?misses" by simp
  then have ne: "?misses \<noteq> []" by auto
  from assms(1) have ms: "set ?misses = nameset - set (map fst ?c)" by simp
  from assms(3) have none: "map_of ?c n = None" by (simp add: map_of_eq_None_iff)
  have st: "stored (api n) = (if 60 \<le> a then Some (if g = ''female'' then ''F'' else ''M'') else None)"
    using assms(4-6) by (simp add: stored_def)
  {
    fix cached' w'
    assume run: "query_names (Some key) api nameset w = (Inr cached', w')"
    note r = query_names_returns [OF ne run]
    have "\<forall>m \<in> set ?misses. answers (api m)"
      using query_loop_raises [of ?misses api ?c "stdout w"] r(1) by blast
    from query_loop_returns [OF this, of ?c "stdout w" n] mem none st
    show "map_of cached' n = (if 60 \<le> a then Some (if g = ''female'' then ''F'' else ''M'') else None)"
      unfolding r(2) by (simp split: option.splits if_splits)
  }
  {
    assume "\<forall>m \<in> nameset - set (map fst (load_cache w)).
              api m = NotOk
              \<or> (\<exists>r a. api m = Ok r \<and> accuracy r = Some a \<and> (a < 60 \<or> (\<exists>g. gender r = Some g)))"
    then have "\<forall>m \<in> set ?misses. answers (api m)"
      unfolding ms answers_def .
    from query_loop_returns [OF this, of ?c "stdout w"]
    have "fst (query_loop api ?misses (?c, stdout w)) = None" by simp
    with query_names_result [OF ne, of api key]
    show "\<exists>cached' w'. query_names (Some key) api nameset w = (Inr cached', w')" by blast
  }
  {
    fix pre post c out
    assume "\<forall>m \<in> set pre.
                api m = NotOk
                \<or> (\<exists>r a. api m = Ok r \<and> accuracy r = Some a \<and> (a < 60 \<or> (\<exists>g. gender r = Some g)))"
    then have "\<forall>m \<in> set pre. answers (api m)"
      unfolding answers_def .
    with assms(4-6)
    show "map_of (fst (snd (query_loop api (pre @ n # post) (c, out)))) n =
        (if 60 \<le> a then Some (if g = ''female'' then ''F'' else ''M'') else map_of c n)"
      by (intro query_loop_entry [where r = r])
  }
qed

theorem query_names_threshold_witness:
  "query_names (Some ''key'') api_smith {''smith''} world_doe_roe =
     (Inr [(''doe'', ''M''), (''roe'', ''F''), (''smith'', ''F'')],
      \<lparr>names_cache = Some [(''doe'', ''M''), (''roe'', ''F''), (''smith'', ''F'')],
         stdout = [Querying ''smith'']\<rparr>)
   \<and> map_of [(''doe'', ''M''), (''roe'', ''F''), (''smith'', ''F'')] ''smith'' = Some ''F''"
proof -
  have run: "query_names (Some ''key'') api_smith {''smith''} world_doe_roe =
     (Inr [(''doe'', ''M''), (''roe'', ''F''), (''smith'', ''F'')],
      \<lparr>names_cache = Some [(''doe'', ''M''), (''roe'', ''F''), (''smith'', ''F'')],
         stdout = [Querying ''smith'']\<rparr>)"
    by (simp add: query_names_def load_cache_def world_doe_roe_def api_smith_def Let_def)
  have "''smith'' \<notin> set (map fst (load_cache world_doe_roe))"
    by (simp add: load_cache_def world_doe_roe_def)
  moreover have "api_smith ''smith'' = Ok \<lparr>gender = Some ''female'', accuracy = Some 60\<rparr>"
    by (simp add: api_smith_def)
  ultimately have "\<forall>cached' w'.
      query_names (Some ''key'') api_smith {''smith''} world_doe_roe = (Inr cached', w') \<longrightarrow>
      map_of cached' ''smith'' = (if (60::int) \<le> 60 then Some (if ''female'' = ''female'' then ''F'' else ''M'') else None)"
    using query_names_threshold
      [of "{''smith''}" "''smith''" world_doe_roe api_smith
          "\<lparr>gender = Some ''female'', accuracy = Some 60\<rparr>" 60 "''female''" "''key''"]
    by simp
  with run show ?thesis by simp
qed

text \<open>
  C3. With no key configured and a name of the name set missing from the loaded cache,
  \<open>query_names\<close> returns the cache it loaded (it raises nothing), leaves the cache
  file as it was and prints one line, the one that gives the number of names that
  could not be mapped.
\<close>

theorem query_names_no_key:
  assumes "finite nameset" and "nameset - set (map fst (load_cache w)) \<noteq> {}"
  shows "query_names None api nameset w =
           (Inr (load_cache w),
            w\<lparr>stdout := stdout w @ [NoKey (card (nameset - set (map fst (load_cache w))))]\<rparr>)
         \<and> names_cache (snd (query_names None api nameset w)) = names_cache w"
proof -
  let ?c = "load_cache w"
  let ?misses = "sorted_list_of_set (nameset - set (map fst ?c))"
  from assms have ne: "?misses \<noteq> []" by (simp add: sorted_list_of_set_eq_Nil_iff)
  from assms(1) have len: "length ?misses = card (nameset - set (map fst ?c))" by simp
  show ?thesis using ne len by (simp add: query_names_def Let_def)
qed

theorem query_names_no_key_witness:
  "query_names None api_smith {''smith''} world_doe_roe =
     (Inr [(''doe'', ''M''), (''roe'', ''F'')],
      \<lparr>names_cache = Some [(''doe'', ''M''), (''roe'', ''F'')], stdout = [NoKey 1]\<rparr>)"
proof -
  have "{''smith''} - set (map fst (load_cache world_doe_roe)) = {''smith''}"
    by (simp add: load_cache_def world_doe_roe_def)
  then show ?thesis
    using query_names_no_key [of "{''smith''}" world_doe_roe api_smith]
    by (simp add: load_cache_def world_doe_roe_def)
qed

text \<open>
  C5. Take a key configured and a name of the name set missing from the loaded cache.
  When \<open>query_names\<close> returns, the cache it returns is the one written to the cache
  file, so the next load reads it; every missing name whose response had an accuracy
  of at least 60 is a key of it; and every entry of the cache loaded at the start is
  still there. It returns exactly when no lookup of a missing name raises. When one
  raises, \<open>query_names\<close> is left with that exception and the cache file is as it was
  before the call.
\<close>

theorem query_names_persists:
  assumes "finite nameset" and "nameset - set (map fst (load_cache w)) \<noteq> {}"
  shows "(\<forall>cached' w'. query_names (Some key) api nameset w = (Inr cached', w') \<longrightarrow>
            names_cache w' = Some cached' \<and> load_cache w' = cached'
            \<and> (\<forall>n r a. n \<in> nameset \<and> n \<notin> set (map fst (load_cache w)) \<and> api n = Ok r
                   \<and> accuracy r = Some a \<and> 60 \<le> a \<longrightarrow> n \<in> set (map fst cached'))
            \<and> (\<forall>k v. map_of (load_cache w) k = Some v \<longrightarrow> map_of cached' k = Some v))
       \<and> (\<forall>e w'. query_names (Some key) api nameset w = (Inl e, w') \<longrightarrow>
            names_cache w' = names_cache w)
       \<and> ((\<forall>m \<in> nameset - set (map fst (load_cache w)).
              api m = NotOk
              \<or> (\<exists>r a. api m = Ok r \<and> accuracy r = Some a \<and> (a < 60 \<or> (\<exists>g. gender r = Some g))))
            \<longrightarrow> (\<exists>cached' w'. query_names (Some key) api nameset w = (Inr cached', w')))
       \<and> ((\<exists>m \<in> nameset - set (map fst (load_cache w)).
              \<not> (api m = NotOk
                 \<or> (\<exists>r a. api m = Ok r \<and> accuracy r = Some a \<and> (a < 60 \<or> (\<exists>g. gender r = Some g)))))
            \<longrightarrow> (\<exists>e w'. query_names (Some key) api nameset w = (Inl e, w')))"
proof (intro conjI allI impI)
  let ?c = "load_cache w"
  let ?misses = "sorted_list_of_set (nameset - set (map fst ?c))"
  from assms have ne: "?misses \<noteq> []" by (simp add: sorted_list_of_set_eq_Nil_iff)
  from assms(1) have ms: "set ?misses = nameset - set (map fst ?c)" by simp
  {
    fix cached' w'
    assume run: "query_names (Some key) api nameset w = (Inr cached', w')"
    note r = query_names_returns [OF ne run]
    have ans: "\<forall>m \<in> set ?misses. answers (api m)"
      using query_loop_raises [of ?misses api ?c "stdout w"] r(1) by blast
    note entry = query_loop_returns [OF ans, of ?c "stdout w", THEN conjunct2, folded r(2)]
    show "names_cache w' = Some cached'" by (rule r(3))
    then show "load_cache w' = cached'" by (simp add: load_cache_def)
    {
      fix n r a
      assume h: "n \<in> nameset \<and> n \<notin> set (map fst (load_cache w)) \<and> api n = Ok r
                   \<and> accuracy r = Some a \<and> 60 \<le> a"
      with ms have mem: "n \<in> set ?misses" by simp
      with ans have "answers (api n)" by blast
      with h obtain g where "gender r = Some g" by (auto simp: answers_def)
      with h have "stored (api n) = Some (if g = ''female'' then ''F'' else ''M'')"
        by (simp add: stored_def)
      with entry [of n] mem have "map_of cached' n \<noteq> None" by simp
      then show "n \<in> set (map fst cached')" by (simp add: map_of_eq_None_iff)
    }
    {
      fix k v
      assume old: "map_of (load_cache w) k = Some v"
      then have "k \<in> set (map fst ?c)"
        by (metis map_of_eq_None_iff option.distinct(1) list.set_map)
      with ms have "k \<notin> set ?misses" by simp
      with entry [of k] old show "map_of cached' k = Some v" by simp
    }
  }
  {
    fix e w'
    assume "query_names (Some key) api nameset w = (Inl e, w')"
    with ne show "names_cache w' = names_cache w" by (rule query_names_raises)
  }
  {
    assume "\<forall>m \<in> nameset - set (map fst (load_cache w)).
              api m = NotOk
              \<or> (\<exists>r a. api m = Ok r \<and> accuracy r = Some a \<and> (a < 60 \<or> (\<exists>g. gender r = Some g)))"
    then have "\<forall>m \<in> set ?misses. answers (api m)"
      unfolding ms answers_def .
    from query_loop_returns [OF this, of ?c "stdout w"]
    have "fst (query_loop api ?misses (?c, stdout w)) = None" by simp
    with query_names_result [OF ne, of api key]
    show "\<exists>cached' w'. query_names (Some key) api nameset w = (Inr cached', w')" by blast
  }
  {
    assume "\<exists>m \<in> nameset - set (map fst (load_cache w)).
              \<not> (api m = NotOk
                 \<or> (\<exists>r a. api m = Ok r \<and> accuracy r = Some a \<and> (a < 60 \<or> (\<exists>g. gender r = Some g))))"
    then have "\<exists>m \<in> set ?misses. \<not> answers (api m)"
      unfolding ms answers_def .
    from query_loop_raises [OF this, of ?c "stdout w"]
    have "fst (query_loop api ?misses (?c, stdout w)) \<noteq> None" .
    with query_names_result [OF ne, of api key]
    show "\<exists>e w'. query_names (Some key) api nameset w = (Inl e, w')" by blast
  }
qed

theorem query_names_persists_witness:
  "query_names (Some ''key'') api_smith {''smith''} world_doe_roe =
     (Inr [(''doe'', ''M''), (''roe'', ''F''), (''smith'', ''F'')],
      \<lparr>names_cache = Some [(''doe'', ''M''), (''roe'', ''F''), (''smith'', ''F'')],
         stdout = [Querying ''smith'']\<rparr>)
   \<and> load_cache \<lparr>names_cache = Some [(''doe'', ''M''), (''roe'', ''F''), (''smith'', ''F'')],
                   stdout = [Querying ''smith'']\<rparr> =
       [(''doe'', ''M''), (''roe'', ''F''), (''smith'', ''F'')]"
proof -
  have ne: "{''smith''} - set (map fst (load_cache world_doe_roe)) \<noteq> {}"
    by (simp add: load_cache_def world_doe_roe_def)
  have run: "query_names (Some ''key'') api_smith {''smith''} world_doe_roe =
     (Inr [(''doe'', ''M''), (''roe'', ''F''), (''smith'', ''F'')],
      \<lparr>names_cache = Some [(''doe'', ''M''), (''roe'', ''F''), (''smith'', ''F'')],
         stdout = [Querying ''smith'']\<rparr>)"
    by (simp add: query_names_def load_cache_def world_doe_roe_def api_smith_def Let_def)
  have "finite {''smith''}" by simp
  from query_names_persists
    [where nameset = "{''smith''}" and w = world_doe_roe and api = api_smith and key = "''key''",
      OF this ne, THEN conjunct1]
    run
  show ?thesis by simp
qed

theorem query_names_persists_counterexample:
  "api_second_raises ''ann'' = Ok \<lparr>gender = Some ''female'', accuracy = Some 90\<rparr>
   \<and> query_names (Some ''key'') api_second_raises {''ann'', ''bob''} world_no_cache =
       (Inl RequestError, \<lparr>names_cache = None, stdout = [Querying ''ann'', Querying ''bob'']\<rparr>)
   \<and> ''ann'' \<notin> set (map fst (load_cache \<lparr>names_cache = None,
                                            stdout = [Querying ''ann'', Querying ''bob'']\<rparr>))"
  by code_simp

section \<open>The records of \<open>find_gender\<close>\<close>

lemma find_gender_loop_keys:
  "set (map fst (fst (find_gender_loop c ps (d, m)))) = set (map fst d) \<union> set (map fst ps)"
proof (induction ps arbitrary: d m)
  case Nil
  then show ?case by simp
next
  case (Cons p ps)
  obtain bid authors where p: "p = (bid, authors)" by (cases p)
  show ?case
    unfolding p by (simp add: Let_def Cons.IH dom_update del: set_map) (auto simp: dom_update)
qed

lemma find_gender_loop_distinct:
  "distinct (map fst d) \<Longrightarrow> distinct (map fst (fst (find_gender_loop c ps (d, m))))"
proof (induction ps arbitrary: d m)
  case Nil
  then show ?case by simp
next
  case (Cons p ps)
  obtain bid authors where p: "p = (bid, authors)" by (cases p)
  show ?case
    unfolding p by (simp add: Let_def Cons.IH Cons.prems distinct_update)
qed

lemma find_gender_loop_fresh:
  "distinct (map fst d @ map fst ps) \<Longrightarrow>
   map fst (fst (find_gender_loop c ps (d, m))) = map fst d @ map fst ps"
proof (induction ps arbitrary: d m)
  case Nil
  then show ?case by simp
next
  case (Cons p ps)
  obtain bid authors where p: "p = (bid, authors)" by (cases p)
  from Cons.prems have fresh: "bid \<notin> set (map fst d)" and
    rest: "\<And>e. distinct (map fst (AList.update bid e d) @ map fst ps)"
    by (auto simp: p update_keys)
  show ?case
    unfolding p using fresh by (simp add: Let_def Cons.IH [OF rest] update_keys)
qed

lemma zip_take_min:
  "zip xs ys = zip (take (min (length xs) (length ys)) xs) (take (min (length xs) (length ys)) ys)"
  by (metis length_zip take_all order_refl take_zip)

lemma find_gender_loop_entries:
  "map_of (fst (find_gender_loop c ps (d, m))) =
     map_of d ++
     map_of (rev (map (\<lambda>(bid, authors).
        (bid, (normalize_name (hd (split authors '' and'')),
               map_of c (normalize_name (hd (split authors '' and'')))),
              (normalize_name (last (split authors '' and'')),
               map_of c (normalize_name (last (split authors '' and'')))))) ps))"
proof (induction ps arbitrary: d m)
  case Nil
  then show ?case by simp
next
  case (Cons p ps)
  obtain bid authors where p: "p = (bid, authors)" by (cases p)
  define E :: "string \<times> string \<Rightarrow> string \<times> (string \<times> label) \<times> (string \<times> label)"
    where "E = (\<lambda>(bid, authors).
        (bid, (normalize_name (hd (split authors '' and'')),
               map_of c (normalize_name (hd (split authors '' and'')))),
              (normalize_name (last (split authors '' and'')),
               map_of c (normalize_name (last (split authors '' and''))))))"
  define e where "e = snd (E p)"
  have Ep: "E p = (bid, e)" by (simp add: e_def E_def p)
  have "map_of (fst (find_gender_loop c (p # ps) (d, m))) =
      map_of (AList.update bid e d) ++ map_of (rev (map E ps))"
    unfolding p by (simp add: Let_def Cons.IH E_def e_def p)
  also have "\<dots> = (map_of d ++ [bid \<mapsto> e]) ++ map_of (rev (map E ps))"
    by (simp add: update_conv')
  also have "\<dots> = map_of d ++ ([bid \<mapsto> e] ++ map_of (rev (map E ps)))"
    by (simp only: map_add_assoc)
  also have "[bid \<mapsto> e] ++ map_of (rev (map E ps)) = map_of (rev (map E (p # ps)))"
    by (simp add: Ep)
  finally show ?case unfolding E_def .
qed

lemma find_gender_loop_missed:
  "snd (find_gender_loop c ps (d, m)) =
     m \<union> {f. \<exists>authors \<in> set (map snd ps).
              (f = normalize_name (hd (split authors '' and''))
               \<or> f = normalize_name (last (split authors '' and'')))
              \<and> map_of c f = None}"
proof (induction ps arbitrary: d m)
  case Nil
  then show ?case by simp
next
  case (Cons p ps)
  obtain bid authors where p: "p = (bid, authors)" by (cases p)
  show ?case
    unfolding p by (auto simp: Let_def Cons.IH add_missed_def)
qed

text \<open>
  C9. The mapping \<open>find_gender\<close> returns has one entry for each citation key of the
  paired records: its keys are distinct and are the keys of the pairs; when the keys
  of the pairs are distinct, the entries are the pairs' keys in order, one entry for
  each pair.
\<close>

theorem find_gender_one_entry_per_key:
  "distinct (map fst (fst (find_gender bibstr cached w)))
   \<and> set (map fst (fst (find_gender bibstr cached w))) =
       set (map fst (zip (bib_id bibstr) (author_lists bibstr)))
   \<and> (distinct (map fst (zip (bib_id bibstr) (author_lists bibstr))) \<longrightarrow>
        map fst (fst (find_gender bibstr cached w)) =
          map fst (zip (bib_id bibstr) (author_lists bibstr)))"
proof (intro conjI impI)
  show "distinct (map fst (fst (find_gender bibstr cached w)))"
    unfolding find_gender_def Let_def by (rule find_gender_loop_distinct) simp
  show "set (map fst (fst (find_gender bibstr cached w))) =
      set (map fst (zip (bib_id bibstr) (author_lists bibstr)))"
    unfolding find_gender_def Let_def find_gender_loop_keys by simp
  assume "distinct (map fst (zip (bib_id bibstr) (author_lists bibstr)))"
  then have "distinct (map fst ([] :: resolved) @ map fst (zip (bib_id bibstr) (author_lists bibstr)))"
    by simp
  from find_gender_loop_fresh [OF this]
  show "map fst (fst (find_gender bibstr cached w)) =
      map fst (zip (bib_id bibstr) (author_lists bibstr))"
    unfolding find_gender_def Let_def by simp
qed

theorem find_gender_one_entry_per_key_witness:
  "zip (bib_id bib_given_first) (author_lists bib_given_first) =
     [(''doe2020'', ''J. Doe and A. Roe''), (''smith2021'', ''K. Smith'')]
   \<and> map fst (fst (find_gender bib_given_first None world_doe_roe)) = [''doe2020'', ''smith2021'']"
proof -
  have z: "zip (bib_id bib_given_first) (author_lists bib_given_first) =
     [(''doe2020'', ''J. Doe and A. Roe''), (''smith2021'', ''K. Smith'')]"
    by code_simp
  from find_gender_one_entry_per_key [of bib_given_first None world_doe_roe] z
  show ?thesis by simp
qed

theorem find_gender_one_entry_counterexample:
  "length (zip (bib_id bib_same_key) (author_lists bib_same_key)) = 2
   \<and> length (fst (find_gender bib_same_key None \<lparr>names_cache = None, stdout = []\<rparr>)) = 1"
  by code_simp

text \<open>
  C10. Let \<open>n\<close> be the smaller of the number of citation keys matched and the number of
  author fields matched. \<open>find_gender\<close> goes through \<open>n\<close> pairs, the first \<open>n\<close> keys
  with the first \<open>n\<close> author fields in order: its result is the result on these; the
  keys of the mapping are exactly the first \<open>n\<close> citation keys; the entry of a key is
  the one computed from the last of these pairs with that key (so with distinct keys
  the mapping has \<open>n\<close> entries); and the missed names are exactly the first and last
  names of the first \<open>n\<close> author fields that the cache lacks. The items after the
  first \<open>n\<close> of the longer sequence have no part in the result.
\<close>

theorem find_gender_pairs_min:
  "(let n = min (length (bib_id bibstr)) (length (author_lists bibstr));
        c = (case cached of None \<Rightarrow> load_cache w | Some c \<Rightarrow> c);
        pairs = zip (take n (bib_id bibstr)) (take n (author_lists bibstr))
    in length (zip (bib_id bibstr) (author_lists bibstr)) = n
       \<and> length pairs = n
       \<and> find_gender bibstr cached w = find_gender_loop c pairs ([], {})
       \<and> set (map fst (fst (find_gender bibstr cached w))) = set (take n (bib_id bibstr))
       \<and> map_of (fst (find_gender bibstr cached w)) =
           map_of (rev (map (\<lambda>(bid, authors).
             (bid, (normalize_name (hd (split authors '' and'')),
                    map_of c (normalize_name (hd (split authors '' and'')))),
                   (normalize_name (last (split authors '' and'')),
                    map_of c (normalize_name (last (split authors '' and'')))))) pairs))
       \<and> snd (find_gender bibstr cached w) =
           {f. \<exists>authors \<in> set (take n (author_lists bibstr)).
                 (f = normalize_name (hd (split authors '' and''))
                  \<or> f = normalize_name (last (split authors '' and'')))
                 \<and> map_of c f = None}
       \<and> (distinct (take n (bib_id bibstr)) \<longrightarrow>
            map fst (fst (find_gender bibstr cached w)) = take n (bib_id bibstr)
            \<and> length (fst (find_gender bibstr cached w)) = n))"
proof -
  define n where "n = min (length (bib_id bibstr)) (length (author_lists bibstr))"
  define c where "c = (case cached of None \<Rightarrow> load_cache w | Some c \<Rightarrow> c)"
  define pairs where "pairs = zip (take n (bib_id bibstr)) (take n (author_lists bibstr))"
  have z: "zip (bib_id bibstr) (author_lists bibstr) = pairs"
    unfolding pairs_def n_def by (rule zip_take_min)
  have fg: "find_gender bibstr cached w = find_gender_loop c pairs ([], {})"
    by (simp add: find_gender_def Let_def z c_def)
  have len: "length pairs = n" by (simp add: pairs_def n_def)
  have keys: "map fst pairs = take n (bib_id bibstr)"
    by (simp add: pairs_def n_def)
  have auths: "map snd pairs = take n (author_lists bibstr)"
    by (simp add: pairs_def n_def)
  have 1: "length (zip (bib_id bibstr) (author_lists bibstr)) = n"
    by (simp add: n_def)
  have 4: "set (map fst (fst (find_gender bibstr cached w))) = set (take n (bib_id bibstr))"
    unfolding fg find_gender_loop_keys keys by simp
  have 5: "map_of (fst (find_gender bibstr cached w)) =
           map_of (rev (map (\<lambda>(bid, authors).
             (bid, (normalize_name (hd (split authors '' and'')),
                    map_of c (normalize_name (hd (split authors '' and'')))),
                   (normalize_name (last (split authors '' and'')),
                    map_of c (normalize_name (last (split authors '' and'')))))) pairs))"
    unfolding fg find_gender_loop_entries by simp
  have 6: "snd (find_gender bibstr cached w) =
           {f. \<exists>authors \<in> set (take n (author_lists bibstr)).
                 (f = normalize_name (hd (split authors '' and''))
                  \<or> f = normalize_name (last (split authors '' and'')))
                 \<and> map_of c f = None}"
    unfolding fg find_gender_loop_missed auths by simp
  have 7: "map fst (fst (find_gender bibstr cached w)) = take n (bib_id bibstr)
      \<and> length (fst (find_gender bibstr cached w)) = n"
    if d: "distinct (take n (bib_id bibstr))"
  proof -
    from d have "distinct (map fst ([] :: resolved) @ map fst pairs)" by (simp add: keys)
    from find_gender_loop_fresh [OF this]
    have m: "map fst (fst (find_gender bibstr cached w)) = take n (bib_id bibstr)"
      unfolding fg keys by simp
    from arg_cong [OF m, of length] have "length (fst (find_gender bibstr cached w)) = n"
      by (simp add: n_def)
    with m show ?thesis ..
  qed
  from 1 len fg 4 5 6 7 show ?thesis
    unfolding Let_def n_def [symmetric] c_def [symmetric] pairs_def [symmetric] by blast
qed

theorem find_gender_pairs_min_witness:
  "bib_id bib_no_author = [''lee2020'', ''ray2021'']
   \<and> author_lists bib_no_author = [''Ann Lee'']
   \<and> length (zip (bib_id bib_no_author) (author_lists bib_no_author)) = 1
   \<and> map fst (fst (find_gender bib_no_author None world_doe_roe)) = [''lee2020'']
   \<and> length (fst (find_gender bib_no_author None world_doe_roe)) = 1"
proof -
  have i: "bib_id bib_no_author = [''lee2020'', ''ray2021'']" by code_simp
  have a: "author_lists bib_no_author = [''Ann Lee'']" by code_simp
  have n: "min (length (bib_id bib_no_author)) (length (author_lists bib_no_author)) = 1"
    by (simp add: i a)
  note t = find_gender_pairs_min
    [where bibstr = bib_no_author and cached = None and w = world_doe_roe, unfolded Let_def n]
  from t have l: "length (zip (bib_id bib_no_author) (author_lists bib_no_author)) = 1"
    by (rule conjunct1)
  from t have "distinct (take 1 (bib_id bib_no_author)) \<longrightarrow>
      map fst (fst (find_gender bib_no_author None world_doe_roe)) = take 1 (bib_id bib_no_author)
      \<and> length (fst (find_gender bib_no_author None world_doe_roe)) = 1"
    by (elim conjE)
  then have "map fst (fst (find_gender bib_no_author None world_doe_roe)) = [''lee2020'']
      \<and> length (fst (find_gender bib_no_author None world_doe_roe)) = 1"
    by (simp add: i)
  with i a l show ?thesis by simp
qed

section \<open>Normalising a name\<close>

lemma of_char_lower_char:
  "(of_char (lower_char c) :: nat) =
     (if (65 \<le> (of_char c :: nat) \<and> (of_char c :: nat) \<le> 90) \<or> (192 \<le> (of_char c :: nat) \<and> (of_char c :: nat) \<le> 214)
         \<or> (216 \<le> (of_char c :: nat) \<and> (of_char c :: nat) \<le> 222)
      then of_char c + 32 else of_char c)"
  by (auto simp: lower_char_def Let_def)

lemma isspace_lower_char: "isspace (lower_char c) = isspace c"
  unfolding isspace_def Let_def of_char_lower_char by auto

lemma lower_char_idem: "lower_char (lower_char c) = lower_char c"
proof -
  have "(of_char (lower_char (lower_char c)) :: nat) = of_char (lower_char c)"
    unfolding of_char_lower_char [of "lower_char c"] unfolding of_char_lower_char [of c] by auto
  then show ?thesis by simp
qed

lemma lower_char_comma: "lower_char c = CHR '','' \<Longrightarrow> c = CHR '',''"
proof -
  assume "lower_char c = CHR '',''"
  then have "(of_char (lower_char c) :: nat) = 44" by simp
  then have "(of_char c :: nat) = of_char (CHR '','')"
    unfolding of_char_lower_char by (auto split: if_splits)
  then show ?thesis by (simp only: of_char_eq_iff)
qed

lemma isspace_not_isword: "isspace c \<Longrightarrow> \<not> isword c"
  by (auto simp: isspace_def isword_def Let_def)

lemma set_strip: "set (strip x) \<subseteq> set x"
proof -
  have "set (strip x) \<subseteq> set (dropWhile isspace x)"
    unfolding strip_def using set_dropWhileD [of _ isspace "rev (dropWhile isspace x)"] by auto
  also have "\<dots> \<subseteq> set x" using set_dropWhileD [of _ isspace x] by auto
  finally show ?thesis .
qed

lemma strip_trimmed: "trimmed x \<Longrightarrow> strip x = x"
proof (cases "x = []")
  case True
  then show ?thesis by (simp add: strip_def)
next
  case False
  assume "trimmed x"
  with False have h: "\<not> isspace (hd x)" and l: "\<not> isspace (last x)" by (simp_all add: trimmed_def)
  from False h have 1: "dropWhile isspace x = x" by (simp add: dropWhile_eq_self_iff)
  from False l have 2: "dropWhile isspace (rev x) = rev x"
    by (simp add: dropWhile_eq_self_iff hd_rev)
  show ?thesis by (simp add: strip_def 1 2)
qed

lemma trimmed_strip: "trimmed (strip x)"
proof (cases "strip x = []")
  case True
  then show ?thesis by (simp add: trimmed_def)
next
  case False
  let ?y = "dropWhile isspace x"
  let ?z = "dropWhile isspace (rev ?y)"
  from False have z: "?z \<noteq> []" by (simp add: strip_def)
  have y: "?y \<noteq> []"
  proof
    assume e: "?y = []"
    have "?z = []" unfolding e by simp
    with z show False ..
  qed
  from z have hz: "\<not> isspace (hd ?z)" by (rule hd_dropWhile)
  from y have hy: "\<not> isspace (hd ?y)" by (rule hd_dropWhile)
  have "last ?z = last (rev ?y)"
  proof (rule dropWhile_last)
    from y show "hd ?y \<in> set (rev ?y)" by simp
    from hy show "\<not> isspace (hd ?y)" .
  qed
  then have lz: "last ?z = hd ?y" using y by (simp add: last_rev)
  have "hd (strip x) = last ?z" using z by (simp add: strip_def hd_rev)
  moreover have "last (strip x) = hd ?z" using z by (simp add: strip_def last_rev)
  ultimately show ?thesis using hz hy lz by (simp add: trimmed_def)
qed

lemma trimmed_lower: "trimmed x \<Longrightarrow> trimmed (lower x)"
  by (auto simp: trimmed_def lower_def hd_map last_map isspace_lower_char)

lemma lower_fixed: "\<forall>c \<in> set x. lower_char c = c \<Longrightarrow> lower x = x"
  by (simp add: lower_def map_idI)

lemma lower_chars: "\<forall>c \<in> set (lower x). lower_char c = c"
  by (auto simp: lower_def lower_char_idem)

lemma comma_lower: "CHR '','' \<notin> set x \<Longrightarrow> CHR '','' \<notin> set (lower x)"
proof
  assume nc: "CHR '','' \<notin> set x" and "CHR '','' \<in> set (lower x)"
  then obtain c where c: "c \<in> set x" and "lower_char c = CHR '',''"
    by (auto simp: lower_def)
  from this(2) have "c = CHR '',''" by (rule lower_char_comma)
  with c nc show False by simp
qed

lemma split_sep_nonempty: "split_sep sep cur x \<noteq> []"
  by (induction x arbitrary: cur) auto

lemma split_comma_none: "CHR '','' \<notin> set x \<Longrightarrow> split_sep '','' cur x = [cur @ x]"
  by (induction x arbitrary: cur) auto

lemma split_comma_last:
  "CHR '','' \<notin> set cur \<Longrightarrow> CHR '','' \<notin> set (last (split_sep '','' cur x))"
proof (induction x arbitrary: cur)
  case Nil
  then show ?case by simp
next
  case (Cons c cs)
  have ne: "split_sep '','' [] cs \<noteq> []" by (rule split_sep_nonempty)
  show ?case
  proof (cases "c = CHR '',''")
    case True
    then show ?thesis using Cons.IH [of "[]"] ne by simp
  next
    case False
    then show ?thesis using Cons.IH [of "cur @ [c]"] Cons.prems by simp
  qed
qed

lemma match_initial_suffix: "match_initial s = Some r \<Longrightarrow> \<exists>pre. s = pre @ r"
proof -
  assume "match_initial s = Some r"
  then obtain w d rest where
    b: "dropWhile isspace s = w # d # rest" and r: "r = dropWhile isspace rest"
    by (auto simp: match_initial_def split: if_splits list.splits)
  have "s = takeWhile isspace s @ dropWhile isspace s" by simp
  also have "\<dots> = takeWhile isspace s @ w # d # takeWhile isspace rest @ r"
    unfolding b r by simp
  finally have "s = (takeWhile isspace s @ w # d # takeWhile isspace rest) @ r" by simp
  then show ?thesis by blast
qed

lemma match_initial_set: "match_initial s = Some r \<Longrightarrow> set r \<subseteq> set s"
proof -
  assume "match_initial s = Some r"
  then obtain pre where "s = pre @ r" using match_initial_suffix by blast
  then have "set s = set pre \<union> set r" by (simp only: set_append)
  then show ?thesis by blast
qed

lemma match_initial_head: "match_initial s = Some r \<Longrightarrow> r = [] \<or> \<not> isspace (hd r)"
  by (auto simp: match_initial_def hd_dropWhile split: if_splits list.splits)

lemma match_initial_no_dot: "CHR ''.'' \<notin> set s \<Longrightarrow> match_initial s = None"
proof -
  assume nd: "CHR ''.'' \<notin> set s"
  have "d \<noteq> CHR ''.''" if "dropWhile isspace s = w # d # rest" for w d rest
  proof -
    have "d \<in> set (dropWhile isspace s)" unfolding that by simp
    then have "d \<in> set s" by (rule set_dropWhileD)
    with nd show ?thesis by auto
  qed
  then show ?thesis by (auto simp: match_initial_def split: list.splits)
qed

lemma match_initial_space:
  "isspace c \<Longrightarrow> match_initial (c # cs) = None \<Longrightarrow> match_initial cs = None"
  by (simp add: match_initial_def)

lemma sub_set: "set (strip_initial_sub x) \<subseteq> set x"
proof (induction x rule: strip_initial_sub.induct)
  case 1
  then show ?case by simp
next
  case (2 c cs)
  show ?case
  proof (cases "match_initial (c # cs)")
    case None
    with 2(1) show ?thesis by auto
  next
    case (Some r)
    from match_initial_set [OF Some] have "set r \<subseteq> set (c # cs)" .
    with 2(2) [OF Some] Some show ?thesis by auto
  qed
qed

lemma sub_no_dot: "CHR ''.'' \<notin> set x \<Longrightarrow> strip_initial_sub x = x"
proof (induction x)
  case Nil
  then show ?case by simp
next
  case (Cons c cs)
  from match_initial_no_dot [OF Cons.prems] Cons show ?case by simp
qed

lemma sub_hd:
  "x = [] \<or> \<not> isspace (hd x) \<Longrightarrow> strip_initial_sub x = [] \<or> \<not> isspace (hd (strip_initial_sub x))"
proof (induction x rule: strip_initial_sub.induct)
  case 1
  then show ?case by simp
next
  case (2 c cs)
  show ?case
  proof (cases "match_initial (c # cs)")
    case None
    with 2(3) show ?thesis by simp
  next
    case (Some r)
    from 2(2) [OF Some match_initial_head [OF Some]] Some show ?thesis by simp
  qed
qed

lemma sub_last:
  "x = [] \<or> \<not> isspace (last x) \<Longrightarrow> strip_initial_sub x = [] \<or> \<not> isspace (last (strip_initial_sub x))"
proof (induction x rule: strip_initial_sub.induct)
  case 1
  then show ?case by simp
next
  case (2 c cs)
  from 2(3) have lastc: "\<not> isspace (last (c # cs))" by simp
  show ?case
  proof (cases "match_initial (c # cs)")
    case None
    show ?thesis
    proof (cases cs)
      case Nil
      with lastc None show ?thesis by simp
    next
      case (Cons d ds)
      with lastc have "cs = [] \<or> \<not> isspace (last cs)" by simp
      from 2(1) [OF None this] have ih: "strip_initial_sub cs = [] \<or> \<not> isspace (last (strip_initial_sub cs))" .
      show ?thesis
      proof (cases "strip_initial_sub cs = []")
        case False
        with ih None show ?thesis by simp
      next
        case True
        have "\<not> isspace c"
        proof
          assume sp: "isspace c"
          from match_initial_space [OF sp None] have "match_initial (d # ds) = None" by (simp add: Cons)
          then have "strip_initial_sub cs \<noteq> []" by (simp add: Cons)
          with True show False by simp
        qed
        with None True show ?thesis by simp
      qed
    qed
  next
    case (Some r)
    from match_initial_suffix [OF Some] obtain pre where pre: "c # cs = pre @ r" by blast
    have "r = [] \<or> \<not> isspace (last r)"
    proof (cases "r = []")
      case False
      then have "last (c # cs) = last r" unfolding pre by simp
      with lastc show ?thesis by simp
    qed simp
    from 2(2) [OF Some this] Some show ?thesis by simp
  qed
qed

lemma trimmed_sub: "trimmed x \<Longrightarrow> trimmed (strip_initial_sub x)"
  using sub_hd [of x] sub_last [of x] by (auto simp: trimmed_def)

lemma normalize_name_again:
  "normalize_name (normalize_name s) = strip_initial_sub (normalize_name s)"
proof -
  let ?tok = "last (split (strip s) '','')"
  let ?u = "lower (strip ?tok)"
  let ?t = "strip_initial_sub ?u"
  have t: "normalize_name s = ?t" by (simp add: normalize_name_def)
  have "CHR '','' \<notin> set ?tok" unfolding split_def by (rule split_comma_last) simp
  then have "CHR '','' \<notin> set (strip ?tok)" using set_strip by blast
  then have "CHR '','' \<notin> set ?u" by (rule comma_lower)
  then have nc: "CHR '','' \<notin> set ?t" using sub_set by blast
  have tr: "trimmed ?t" by (intro trimmed_sub trimmed_lower trimmed_strip)
  have "\<forall>c \<in> set ?t. lower_char c = c" using lower_chars [of "strip ?tok"] sub_set [of ?u] by blast
  then have lo: "lower ?t = ?t" by (rule lower_fixed)
  have st: "strip ?t = ?t" using tr by (rule strip_trimmed)
  have "split_sep '','' [] ?t = [[] @ ?t]" using nc by (rule split_comma_none)
  then have "split ?t '','' = [?t]" by (simp add: split_def [of ?t])
  then have "lower (strip (last (split (strip ?t) '',''))) = ?t"
    by (simp add: st lo)
  then show ?thesis unfolding t by (simp only: normalize_name_def [of ?t])
qed

text \<open>
  C6. Normalising a normalised name gives the same name whenever the normalised name
  holds no full stop. (In general the second normalisation is one more removal of
  initials, which can find an initial that the first one formed.)
\<close>

theorem normalize_name_idempotent_no_dot:
  assumes "CHR ''.'' \<notin> set (normalize_name s)"
  shows "normalize_name (normalize_name s) = normalize_name s"
  using sub_no_dot [OF assms] by (simp add: normalize_name_again)

theorem normalize_name_idempotent_no_dot_witness:
  "normalize_name ''Doe, John A.'' = ''john''
   \<and> normalize_name (normalize_name ''Doe, John A.'') = normalize_name ''Doe, John A.''"
proof -
  have e: "normalize_name ''Doe, John A.'' = ''john''" by code_simp
  then have "CHR ''.'' \<notin> set (normalize_name ''Doe, John A.'')" by simp
  from normalize_name_idempotent_no_dot [OF this] e show ?thesis by simp
qed

theorem normalize_name_idempotent_counterexample:
  "normalize_name ''Doe, John...'' = ''joh..''
   \<and> normalize_name (normalize_name ''Doe, John...'') = ''jo.''
   \<and> normalize_name (normalize_name ''Doe, John...'') \<noteq> normalize_name ''Doe, John...''"
  by code_simp

section \<open>The run as a whole\<close>

lemma find_gender_cached:
  "find_gender bibstr (Some c) w = find_gender bibstr (Some c) world_doe_roe"
  by (simp add: find_gender_def)

lemma find_gender_surname_first:
  "find_gender bib_surname_first None world_doe_roe =
     ([(''doe2020'', ([], None), ([], None)), (''smith2021'', ([], None), ([], None))], {[]})"
  "find_gender bib_surname_first (Some [(''doe'', ''M''), (''roe'', ''F'')]) w =
     ([(''doe2020'', ([], None), ([], None)), (''smith2021'', ([], None), ([], None))], {[]})"
proof -
  show "find_gender bib_surname_first None world_doe_roe =
     ([(''doe2020'', ([], None), ([], None)), (''smith2021'', ([], None), ([], None))], {[]})"
    by code_simp
  have "find_gender bib_surname_first (Some [(''doe'', ''M''), (''roe'', ''F'')]) world_doe_roe =
     ([(''doe2020'', ([], None), ([], None)), (''smith2021'', ([], None), ([], None))], {[]})"
    by code_simp
  then show "find_gender bib_surname_first (Some [(''doe'', ''M''), (''roe'', ''F'')]) w =
     ([(''doe2020'', ([], None), ([], None)), (''smith2021'', ([], None), ([], None))], {[]})"
    by (simp only: find_gender_cached [of _ _ w])
qed

lemma find_gender_given_first:
  "find_gender bib_given_first None world_doe_roe =
     ([(''doe2020'', (''doe'', Some ''M''), (''roe'', Some ''F'')),
       (''smith2021'', (''smith'', None), (''smith'', None))], {''smith''})"
  "find_gender bib_given_first (Some [(''doe'', ''M''), (''roe'', ''F'')]) w =
     ([(''doe2020'', (''doe'', Some ''M''), (''roe'', Some ''F'')),
       (''smith2021'', (''smith'', None), (''smith'', None))], {''smith''})"
proof -
  show "find_gender bib_given_first None world_doe_roe =
     ([(''doe2020'', (''doe'', Some ''M''), (''roe'', Some ''F'')),
       (''smith2021'', (''smith'', None), (''smith'', None))], {''smith''})"
    by code_simp
  have "find_gender bib_given_first (Some [(''doe'', ''M''), (''roe'', ''F'')]) world_doe_roe =
     ([(''doe2020'', (''doe'', Some ''M''), (''roe'', Some ''F'')),
       (''smith2021'', (''smith'', None), (''smith'', None))], {''smith''})"
    by code_simp
  then show "find_gender bib_given_first (Some [(''doe'', ''M''), (''roe'', ''F'')]) w =
     ([(''doe2020'', (''doe'', Some ''M''), (''roe'', Some ''F'')),
       (''smith2021'', (''smith'', None), (''smith'', None))], {''smith''})"
    by (simp only: find_gender_cached [of _ _ w])
qed

lemma query_names_example:
  "query_names None api {[]} world_doe_roe =
     (Inr [(''doe'', ''M''), (''roe'', ''F'')],
      \<lparr>names_cache = Some [(''doe'', ''M''), (''roe'', ''F'')], stdout = [NoKey 1]\<rparr>)"
  "query_names None api {''smith''} world_doe_roe =
     (Inr [(''doe'', ''M''), (''roe'', ''F'')],
      \<lparr>names_cache = Some [(''doe'', ''M''), (''roe'', ''F'')], stdout = [NoKey 1]\<rparr>)"
  by (simp_all add: query_names_def world_doe_roe_def load_cache_def Let_def)

lemma report_gender_example:
  "report_gender [(''doe2020'', ([], None), ([], None)), (''smith2021'', ([], None), ([], None))] =
     Inr [(''MM'', 0), (''MF'', 0), (''MNone'', 0), (''FM'', 0), (''FF'', 0), (''FNone'', 0),
          (''NoneM'', 0), (''NoneF'', 0), (''NoneNone'', 2)]"
  "report_gender [(''doe2020'', (''doe'', Some ''M''), (''roe'', Some ''F'')),
                  (''smith2021'', (''smith'', None), (''smith'', None))] =
     Inr [(''MM'', 0), (''MF'', 1), (''MNone'', 0), (''FM'', 0), (''FF'', 0), (''FNone'', 0),
          (''NoneM'', 0), (''NoneF'', 0), (''NoneNone'', 1)]"
  by (simp_all add: report_gender_def categories_eq label_str_def)

lemma main_surname_first:
  "main bib_surname_first None api world_doe_roe =
     Inr (\<lparr>resolved_out =
              [(''doe2020'', ([], None), ([], None)), (''smith2021'', ([], None), ([], None))],
            missed_out = {[]},
            gender_report =
              [(''MM'', 0), (''MF'', 0), (''MNone'', 0), (''FM'', 0), (''FF'', 0), (''FNone'', 0),
               (''NoneM'', 0), (''NoneF'', 0), (''NoneNone'', 2)],
            stats_report =
              [(''MM'', Rounded 0), (''MF'', Rounded 0), (''MNone'', Rounded 0), (''FM'', Rounded 0),
               (''FF'', Rounded 0), (''FNone'', Rounded 0), (''NoneM'', Rounded 0), (''NoneF'', Rounded 0),
               (''NoneNone'', Rounded 1)]\<rparr>,
          \<lparr>names_cache = Some [(''doe'', ''M''), (''roe'', ''F'')],
             stdout = [NoKey 1, Report [(''MM'', 0), (''MF'', 0), (''MNone'', 0), (''FM'', 0), (''FF'', 0),
                 (''FNone'', 0), (''NoneM'', 0), (''NoneF'', 0), (''NoneNone'', 2)]]\<rparr>)"
  by (simp add: main_def find_gender_surname_first query_names_example report_gender_example
      compute_gender_stats_def truediv_def)

lemma main_given_first:
  "main bib_given_first None api world_doe_roe =
     Inr (\<lparr>resolved_out =
              [(''doe2020'', (''doe'', Some ''M''), (''roe'', Some ''F'')),
               (''smith2021'', (''smith'', None), (''smith'', None))],
            missed_out = {''smith''},
            gender_report =
              [(''MM'', 0), (''MF'', 1), (''MNone'', 0), (''FM'', 0), (''FF'', 0), (''FNone'', 0),
               (''NoneM'', 0), (''NoneF'', 0), (''NoneNone'', 1)],
            stats_report =
              [(''MM'', Rounded 0), (''MF'', Rounded (1 / 2)), (''MNone'', Rounded 0), (''FM'', Rounded 0),
               (''FF'', Rounded 0), (''FNone'', Rounded 0), (''NoneM'', Rounded 0), (''NoneF'', Rounded 0),
               (''NoneNone'', Rounded (1 / 2))]\<rparr>,
          \<lparr>names_cache = Some [(''doe'', ''M''), (''roe'', ''F'')],
             stdout = [NoKey 1, Report [(''MM'', 0), (''MF'', 1), (''MNone'', 0), (''FM'', 0), (''FF'', 0),
                 (''FNone'', 0), (''NoneM'', 0), (''NoneF'', 0), (''NoneNone'', 1)]]\<rparr>)"
  by (simp add: main_def find_gender_given_first query_names_example report_gender_example
      compute_gender_stats_def truediv_def)

text \<open>
  C1. For the two records with the author fields \<open>{Doe, J. and Roe, A.}\<close> and
  \<open>{Smith, K.}\<close>, the cache \<open>{"doe": "M", "roe": "F"}\<close> and no key, each name
  normalises to the empty string (the last token after a comma is the initial, and it
  is removed): both records resolve as \<open>(None, None)\<close>, the missed set is \<open>{""}\<close>,
  the report has NoneNone = 2 and 0 elsewhere, the ratios are 1 for NoneNone and 0
  elsewhere. With the author fields written \<open>{J. Doe and A. Roe}\<close> and \<open>{K. Smith}\<close>
  the run gives \<open>(M, F)\<close> and \<open>(None, None)\<close>, the missed set \<open>{"smith"}\<close>, MF = 1 and
  NoneNone = 1, and the ratios 0.5 for MF and for NoneNone. In both runs the cache file
  is left as it was, and the line without a key (for one name) and the report are
  printed.
\<close>

theorem main_two_pass_example:
  "main bib_surname_first None api world_doe_roe =
     Inr (\<lparr>resolved_out =
              [(''doe2020'', ([], None), ([], None)), (''smith2021'', ([], None), ([], None))],
            missed_out = {[]},
            gender_report =
              [(''MM'', 0), (''MF'', 0), (''MNone'', 0), (''FM'', 0), (''FF'', 0), (''FNone'', 0),
               (''NoneM'', 0), (''NoneF'', 0), (''NoneNone'', 2)],
            stats_report =
              [(''MM'', Rounded 0), (''MF'', Rounded 0), (''MNone'', Rounded 0), (''FM'', Rounded 0),
               (''FF'', Rounded 0), (''FNone'', Rounded 0), (''NoneM'', Rounded 0), (''NoneF'', Rounded 0),
               (''NoneNone'', Rounded 1)]\<rparr>,
          \<lparr>names_cache = Some [(''doe'', ''M''), (''roe'', ''F'')],
             stdout = [NoKey 1, Report [(''MM'', 0), (''MF'', 0), (''MNone'', 0), (''FM'', 0), (''FF'', 0),
                 (''FNone'', 0), (''NoneM'', 0), (''NoneF'', 0), (''NoneNone'', 2)]]\<rparr>)
   \<and> main bib_given_first None api world_doe_roe =
     Inr (\<lparr>resolved_out =
              [(''doe2020'', (''doe'', Some ''M''), (''roe'', Some ''F'')),
               (''smith2021'', (''smith'', None), (''smith'', None))],
            missed_out = {''smith''},
            gender_report =
              [(''MM'', 0), (''MF'', 1), (''MNone'', 0), (''FM'', 0), (''FF'', 0), (''FNone'', 0),
               (''NoneM'', 0), (''NoneF'', 0), (''NoneNone'', 1)],
            stats_report =
              [(''MM'', Rounded 0), (''MF'', Rounded (1 / 2)), (''MNone'', Rounded 0), (''FM'', Rounded 0),
               (''FF'', Rounded 0), (''FNone'', Rounded 0), (''NoneM'', Rounded 0), (''NoneF'', Rounded 0),
               (''NoneNone'', Rounded (1 / 2))]\<rparr>,
          \<lparr>names_cache = Some [(''doe'', ''M''), (''roe'', ''F'')],
             stdout = [NoKey 1, Report [(''MM'', 0), (''MF'', 1), (''MNone'', 0), (''FM'', 0), (''FF'', 0),
                 (''FNone'', 0), (''NoneM'', 0), (''NoneF'', 0), (''NoneNone'', 1)]]\<rparr>)"
  using main_surname_first [of api] main_given_first [of api] by (rule conjI)

theorem main_two_pass_example_counterexample:
  "\<not> (\<exists>out w'. main bib_surname_first None (\<lambda>n. NotOk) world_doe_roe = Inr (out, w')
         \<and> map (\<lambda>(k, first, lastn). (snd first, snd lastn)) (resolved_out out) =
             [(Some ''M'', Some ''F''), (None, None)]
         \<and> missed_out out = {''smith''}
         \<and> gender_report out =
             [(''MM'', 0), (''MF'', 1), (''MNone'', 0), (''FM'', 0), (''FF'', 0), (''FNone'', 0),
              (''NoneM'', 0), (''NoneF'', 0), (''NoneNone'', 1)]
         \<and> stats_report out =
             [(''MM'', Rounded 0), (''MF'', Rounded (1 / 2)), (''MNone'', Rounded 0), (''FM'', Rounded 0),
              (''FF'', Rounded 0), (''FNone'', Rounded 0), (''NoneM'', Rounded 0), (''NoneF'', Rounded 0),
              (''NoneNone'', Rounded (1 / 2))])"
proof (intro notI, elim exE conjE)
  fix out w'
  assume m: "main bib_surname_first None (\<lambda>n. NotOk) world_doe_roe = Inr (out, w')"
    and missed: "missed_out out = {''smith''}"
  from m have "missed_out out = {[]}"
    unfolding main_surname_first [of "\<lambda>n. NotOk"] by auto
  with missed show False by simp
qed

end
